theory Spec2Isabelle
  imports Complex_Main
begin

section \<open>JavaScript values used by \<open>SizeLimitedMap\<close>\<close>

text \<open>
  A key is any JavaScript value. The only value the class itself ever names is
  \<open>undefined\<close>, which is what \<open>keysIterator.next().value\<close> is once the iterator
  has finished; it is a legal \<open>Map\<close> key like any other.
\<close>

datatype 'a js = Undefined | Val 'a

text \<open>
  A JavaScript number, as far as \<open>typeof\<close>, \<open>Number.isNaN\<close>, \<open>Number.isFinite\<close>,
  \<open>maxSize < 1\<close> and \<open>size >= maxSize\<close> can tell: every finite double is a
  rational, and comparing it with an integer is exact.
\<close>

datatype jsnumber = NaN | PosInfinity | NegInfinity | Num rat

text \<open>What a caller can pass as \<open>maxSize\<close> at run time: a number, or anything else.\<close>

datatype jsvalue = Number jsnumber | NotNumber

fun Number_isNaN :: "jsnumber \<Rightarrow> bool" where
  "Number_isNaN NaN = True"
| "Number_isNaN _ = False"

fun Number_isFinite :: "jsnumber \<Rightarrow> bool" where
  "Number_isFinite (Num q) = True"
| "Number_isFinite _ = False"

text \<open>\<open>x < y\<close> and \<open>x >= y\<close> on numbers; every comparison with NaN is false.\<close>

fun js_less :: "jsnumber \<Rightarrow> jsnumber \<Rightarrow> bool" where
  "js_less NaN _ = False"
| "js_less _ NaN = False"
| "js_less PosInfinity _ = False"
| "js_less NegInfinity NegInfinity = False"
| "js_less NegInfinity _ = True"
| "js_less (Num p) PosInfinity = True"
| "js_less (Num p) NegInfinity = False"
| "js_less (Num p) (Num q) = (p < q)"

fun js_ge :: "jsnumber \<Rightarrow> jsnumber \<Rightarrow> bool" where
  "js_ge NaN _ = False"
| "js_ge _ NaN = False"
| "js_ge x y = (\<not> js_less x y)"

section \<open>The built-in \<open>Map\<close>\<close>

text \<open>
  ECMAScript keeps a \<open>Map\<close>'s entries in a list in insertion order. \<open>delete\<close> and
  \<open>clear\<close> empty a record where it stands (\<open>None\<close> here), \<open>set\<close> on a new key
  appends, and an iterator is an index into that list; this is what makes
  the iterator a live view.
\<close>

type_synonym ('k, 'v) mapdata = "('k js \<times> 'v) option list"

fun Map_has :: "'k js \<Rightarrow> ('k, 'v) mapdata \<Rightarrow> bool" where
  "Map_has key [] = False"
| "Map_has key (None # es) = Map_has key es"
| "Map_has key (Some (k, v) # es) = (if k = key then True else Map_has key es)"

fun Map_get :: "'k js \<Rightarrow> ('k, 'v) mapdata \<Rightarrow> 'v option" where
  "Map_get key [] = None"
| "Map_get key (None # es) = Map_get key es"
| "Map_get key (Some (k, v) # es) = (if k = key then Some v else Map_get key es)"

fun Map_set :: "'k js \<Rightarrow> 'v \<Rightarrow> ('k, 'v) mapdata \<Rightarrow> ('k, 'v) mapdata" where
  "Map_set key val [] = [Some (key, val)]"
| "Map_set key val (None # es) = None # Map_set key val es"
| "Map_set key val (Some (k, v) # es) =
     (if k = key then Some (k, val) # es else Some (k, v) # Map_set key val es)"

fun Map_delete :: "'k js \<Rightarrow> ('k, 'v) mapdata \<Rightarrow> bool \<times> ('k, 'v) mapdata" where
  "Map_delete key [] = (False, [])"
| "Map_delete key (None # es) = apsnd ((#) None) (Map_delete key es)"
| "Map_delete key (Some (k, v) # es) =
     (if k = key then (True, None # es) else apsnd ((#) (Some (k, v))) (Map_delete key es))"

definition Map_clear :: "('k, 'v) mapdata \<Rightarrow> ('k, 'v) mapdata" where
  "Map_clear m = map (\<lambda>e. None) m"

fun Map_size :: "('k, 'v) mapdata \<Rightarrow> nat" where
  "Map_size [] = 0"
| "Map_size (None # es) = Map_size es"
| "Map_size (Some e # es) = Suc (Map_size es)"

text \<open>\<open>new Map(entries)\<close>: an empty map, then \<open>set\<close> for each entry in order.\<close>

definition new_Map :: "('k js \<times> 'v) list \<Rightarrow> ('k, 'v) mapdata" where
  "new_Map entries = fold (\<lambda>(k, v) m. Map_set k v m) entries []"

text \<open>
  What iterating \<open>entries()\<close>, \<open>keys()\<close> or \<open>values()\<close> to the end yields when
  nothing is changed meanwhile: the records that are not empty, in list order.
\<close>

fun Map_entries :: "('k, 'v) mapdata \<Rightarrow> ('k js \<times> 'v) list" where
  "Map_entries [] = []"
| "Map_entries (None # es) = Map_entries es"
| "Map_entries (Some e # es) = e # Map_entries es"

subsection \<open>The key iterator\<close>

record map_iterator =
  index :: nat
  finished :: bool

record 'k iterator_result =
  result_value :: "'k js"
  result_done :: bool

definition Map_keys :: map_iterator where
  "Map_keys = \<lparr>index = 0, finished = False\<rparr>"

text \<open>
  The iterator's loop, on the records from \<open>index\<close> on: step over empty records,
  stop behind the first one that has a key.
\<close>

fun advance :: "('k, 'v) mapdata \<Rightarrow> nat \<Rightarrow> ('k js \<times> nat) option" where
  "advance [] i = None"
| "advance (None # es) i = advance es (Suc i)"
| "advance (Some (k, v) # es) i = Some (k, Suc i)"

definition iterator_next ::
  "('k, 'v) mapdata \<Rightarrow> map_iterator \<Rightarrow> 'k iterator_result \<times> map_iterator" where
  "iterator_next m it =
     (if finished it then (\<lparr>result_value = Undefined, result_done = True\<rparr>, it)
      else case advance (drop (index it) m) (index it) of
             None \<Rightarrow> (\<lparr>result_value = Undefined, result_done = True\<rparr>,
                      \<lparr>index = length m, finished = True\<rparr>)
           | Some (k, i) \<Rightarrow> (\<lparr>result_value = k, result_done = False\<rparr>, it\<lparr>index := i\<rparr>))"

section \<open>\<open>SizeLimitedMap\<close>\<close>

record ('k, 'v) SizeLimitedMap =
  maxSize :: jsnumber
  map_data :: "('k, 'v) mapdata"
  keysIterator :: map_iterator

datatype error = Error string

definition constructor ::
  "jsvalue \<Rightarrow> ('k js \<times> 'v) list \<Rightarrow> error + ('k, 'v) SizeLimitedMap" where
  "constructor maxSize_arg entries =
     (case maxSize_arg of
        NotNumber \<Rightarrow> Inl (Error ''Cache size must be a number'')
      | Number n \<Rightarrow>
          if Number_isNaN n then Inl (Error ''Cache size must be a number'')
          else if js_less n (Num 1) \<or> \<not> Number_isFinite n
            then Inl (Error ''Cache size must at least be 1, and finite.'')
          else Inr \<lparr>maxSize = n, map_data = new_Map entries, keysIterator = Map_keys\<rparr>)"

definition set_slm :: "'k js \<Rightarrow> 'v \<Rightarrow> ('k, 'v) SizeLimitedMap \<Rightarrow> ('k, 'v) SizeLimitedMap" where
  "set_slm key val s =
     (if Map_has key (map_data s) then s\<lparr>map_data := Map_set key val (map_data s)\<rparr>
      else
        let s1 =
          (if js_ge (Num (of_nat (Map_size (map_data s)))) (maxSize s)
           then
             let (r, it) = iterator_next (map_data s) (keysIterator s)
             in s\<lparr>map_data := snd (Map_delete (result_value r) (map_data s)),
                  keysIterator := it\<rparr>
           else s)
        in s1\<lparr>map_data := Map_set key val (map_data s1)\<rparr>)"

definition size_slm :: "('k, 'v) SizeLimitedMap \<Rightarrow> nat" where
  "size_slm s = Map_size (map_data s)"

definition get :: "'k js \<Rightarrow> ('k, 'v) SizeLimitedMap \<Rightarrow> 'v option" where
  "get key s = Map_get key (map_data s)"

definition has :: "'k js \<Rightarrow> ('k, 'v) SizeLimitedMap \<Rightarrow> bool" where
  "has key s = Map_has key (map_data s)"

definition delete :: "'k js \<Rightarrow> ('k, 'v) SizeLimitedMap \<Rightarrow> bool \<times> ('k, 'v) SizeLimitedMap" where
  "delete key s =
     (fst (Map_delete key (map_data s)), s\<lparr>map_data := snd (Map_delete key (map_data s))\<rparr>)"

definition clear :: "('k, 'v) SizeLimitedMap \<Rightarrow> ('k, 'v) SizeLimitedMap" where
  "clear s = s\<lparr>map_data := Map_clear (map_data s)\<rparr>"

definition entries :: "('k, 'v) SizeLimitedMap \<Rightarrow> ('k js \<times> 'v) list" where
  "entries s = Map_entries (map_data s)"

definition keys :: "('k, 'v) SizeLimitedMap \<Rightarrow> 'k js list" where
  "keys s = map fst (Map_entries (map_data s))"

definition values_slm :: "('k, 'v) SizeLimitedMap \<Rightarrow> 'v list" where
  "values_slm s = map snd (Map_entries (map_data s))"

subsection \<open>Sequences of calls\<close>

datatype ('k, 'v) command = Set "'k js" 'v | Delete "'k js" | Clear

fun exec :: "('k, 'v) command \<Rightarrow> ('k, 'v) SizeLimitedMap \<Rightarrow> ('k, 'v) SizeLimitedMap" where
  "exec (Set k v) s = set_slm k v s"
| "exec (Delete k) s = snd (delete k s)"
| "exec Clear s = clear s"

definition run :: "('k, 'v) command list \<Rightarrow> ('k, 'v) SizeLimitedMap \<Rightarrow> ('k, 'v) SizeLimitedMap" where
  "run cmds s = fold exec cmds s"




text \<open>A command touches a key when it sets or deletes that very key.\<close>

fun touches :: "'k js \<Rightarrow> ('k, 'v) command \<Rightarrow> bool" where
  "touches key (Set k v) = (k = key)"
| "touches key (Delete k) = (k = key)"
| "touches key Clear = False"

section \<open>The reference model of the specification\<close>

text \<open>
  The specification's reference model: an explicit queue of the live keys (with their
  values) in insertion order. A new key goes to the back; when inserting a new key
  would exceed \<open>N\<close>, the head of the queue is evicted first. Overwriting keeps the
  position, deleting takes the key out of the queue. The capacity \<open>N\<close> is any finite
  number, as for the class.
\<close>

fun queue_update :: "'k \<Rightarrow> 'v \<Rightarrow> ('k \<times> 'v) list \<Rightarrow> ('k \<times> 'v) list" where
  "queue_update key val [] = []"
| "queue_update key val ((k, v) # q) =
     (if k = key then (k, val) # q else (k, v) # queue_update key val q)"

definition model_set :: "rat \<Rightarrow> 'k \<Rightarrow> 'v \<Rightarrow> ('k \<times> 'v) list \<Rightarrow> ('k \<times> 'v) list" where
  "model_set N key val q =
     (if key \<in> fst ` set q then queue_update key val q
      else if N < of_nat (length q + 1) then tl q @ [(key, val)]
      else q @ [(key, val)])"

definition model_delete :: "'k \<Rightarrow> ('k \<times> 'v) list \<Rightarrow> ('k \<times> 'v) list" where
  "model_delete key q = filter (\<lambda>e. fst e \<noteq> key) q"

fun model_exec :: "rat \<Rightarrow> ('k, 'v) command \<Rightarrow> ('k js \<times> 'v) list \<Rightarrow> ('k js \<times> 'v) list" where
  "model_exec N (Set k v) q = model_set N k v q"
| "model_exec N (Delete k) q = model_delete k q"
| "model_exec N Clear q = []"

definition model_run ::
  "rat \<Rightarrow> ('k, 'v) command list \<Rightarrow> ('k js \<times> 'v) list \<Rightarrow> ('k js \<times> 'v) list" where
  "model_run N cmds q = fold (model_exec N) cmds q"

section \<open>The invariant of the object\<close>

text \<open>
  What holds of every \<open>SizeLimitedMap\<close> the constructor returns and every method
  keeps: the size limit passed the constructor's checks, the key iterator has not
  finished, every record it has gone past is empty, and no key occurs twice.
\<close>

fun valid_size :: "jsnumber \<Rightarrow> bool" where
  "valid_size (Num q) = (1 \<le> q)"
| "valid_size _ = False"

definition slm_inv :: "('k, 'v) SizeLimitedMap \<Rightarrow> bool" where
  "slm_inv s \<longleftrightarrow>
     valid_size (maxSize s) \<and>
     \<not> finished (keysIterator s) \<and>
     take (index (keysIterator s)) (map_data s) = replicate (index (keysIterator s)) None \<and>
     distinct (map fst (Map_entries (map_data s)))"

section \<open>The built-in map as a list of live entries\<close>

lemma Map_has_entries: "Map_has k m \<longleftrightarrow> k \<in> fst ` set (Map_entries m)"
  by (induction k m rule: Map_has.induct) auto

lemma Map_get_entries: "Map_get k m = map_of (Map_entries m) k"
  by (induction k m rule: Map_get.induct) auto

lemma Map_size_entries: "Map_size m = length (Map_entries m)"
  by (induction m rule: Map_size.induct) auto

lemma Map_entries_clear: "Map_entries (Map_clear m) = []"
  by (induction m) (auto simp: Map_clear_def)

lemma Map_delete_result: "fst (Map_delete k m) = Map_has k m"
  by (induction k m rule: Map_delete.induct) auto

lemma Map_delete_absent: "\<not> Map_has k m \<Longrightarrow> Map_delete k m = (False, m)"
  by (induction k m rule: Map_delete.induct) auto

lemma Map_entries_set_present:
  "Map_has k m \<Longrightarrow> Map_entries (Map_set k v m) = queue_update k v (Map_entries m)"
  by (induction k v m rule: Map_set.induct) auto

lemma Map_entries_set_absent:
  "\<not> Map_has k m \<Longrightarrow> Map_entries (Map_set k v m) = Map_entries m @ [(k, v)]"
  by (induction k v m rule: Map_set.induct) auto

lemma Map_get_set_same: "Map_get k (Map_set k v m) = Some v"
  by (induction k v m rule: Map_set.induct) auto

lemma Map_get_set_other: "k' \<noteq> k \<Longrightarrow> Map_get k' (Map_set k v m) = Map_get k' m"
  by (induction k v m rule: Map_set.induct) auto

lemma Map_has_get: "Map_has k m \<longleftrightarrow> Map_get k m \<noteq> None"
  by (induction k m rule: Map_has.induct) auto

lemma Map_entries_delete:
  "distinct (map fst (Map_entries m)) \<Longrightarrow>
   Map_entries (snd (Map_delete k m)) = filter (\<lambda>e. fst e \<noteq> k) (Map_entries m)"
proof (induction k m rule: Map_delete.induct)
  case (3 key k v es)
  show ?case
  proof (cases "k = key")
    case True
    with 3 have "\<forall>e \<in> set (Map_entries es). fst e \<noteq> key" by auto
    then have "filter (\<lambda>e. fst e \<noteq> key) (Map_entries es) = Map_entries es"
      by (simp add: filter_id_conv)
    with True show ?thesis by simp
  next
    case False
    with 3 show ?thesis by simp
  qed
qed simp_all

lemma fst_queue_update: "map fst (queue_update k v q) = map fst q"
  by (induction k v q rule: queue_update.induct) auto

lemma length_queue_update: "length (queue_update k v q) = length q"
  by (induction k v q rule: queue_update.induct) auto

lemma distinct_Map_set:
  "distinct (map fst (Map_entries m)) \<Longrightarrow> distinct (map fst (Map_entries (Map_set k v m)))"
  by (cases "Map_has k m")
     (auto simp: Map_entries_set_present Map_entries_set_absent fst_queue_update Map_has_entries)

lemma distinct_Map_delete:
  "distinct (map fst (Map_entries m)) \<Longrightarrow> distinct (map fst (Map_entries (snd (Map_delete k m))))"
  by (simp add: Map_entries_delete distinct_map_filter)

lemma distinct_fold_Map_set:
  "distinct (map fst (Map_entries m)) \<Longrightarrow>
   distinct (map fst (Map_entries (fold (\<lambda>(k, v) m. Map_set k v m) es m)))"
  by (induction es arbitrary: m) (auto simp: distinct_Map_set)

lemma distinct_new_Map: "distinct (map fst (Map_entries (new_Map es)))"
  unfolding new_Map_def by (rule distinct_fold_Map_set) simp

subsection \<open>Empty records in front of the iterator\<close>

lemma Map_set_prefix: "Map_set k v (replicate n None @ es) = replicate n None @ Map_set k v es"
  by (induction n) auto

lemma Map_delete_prefix:
  "snd (Map_delete k (replicate n None @ es)) = replicate n None @ snd (Map_delete k es)"
  by (induction n) auto

lemma Map_entries_prefix: "Map_entries (replicate n None @ es) = Map_entries es"
  by (induction n) auto

lemma Map_delete_hit:
  "snd (Map_delete k (replicate n None @ Some (k, v) # rest)) = replicate n None @ None # rest"
  by (induction n) auto

lemma prefix_split: "take i m = replicate i None \<Longrightarrow> m = replicate i None @ drop i m"
  by (metis append_take_drop_id)

lemma take_Map_set:
  assumes "take i m = replicate i None"
  shows "take i (Map_set k v m) = replicate i None"
proof -
  have "Map_set k v m = replicate i None @ Map_set k v (drop i m)"
    using prefix_split [OF assms] Map_set_prefix by metis
  then show ?thesis by simp
qed

lemma take_Map_delete:
  assumes "take i m = replicate i None"
  shows "take i (snd (Map_delete k m)) = replicate i None"
proof -
  have "snd (Map_delete k m) = replicate i None @ snd (Map_delete k (drop i m))"
    using prefix_split [OF assms] Map_delete_prefix by metis
  then show ?thesis by simp
qed

lemma take_Map_clear:
  assumes "take i m = replicate i None"
  shows "take i (Map_clear m) = replicate i None"
proof -
  have "take i (Map_clear m) = map (\<lambda>e. None) (take i m)"
    by (simp add: Map_clear_def take_map)
  with assms show ?thesis by simp
qed

lemma advance_None: "advance es i = None \<longleftrightarrow> Map_entries es = []"
  by (induction es i rule: advance.induct) auto

lemma advance_Some:
  "advance es i = Some (k, j) \<Longrightarrow>
   \<exists>n v rest. es = replicate n None @ Some (k, v) # rest \<and> j = Suc (i + n)"
proof (induction es i rule: advance.induct)
  case (2 es i)
  then obtain n v rest where "es = replicate n None @ Some (k, v) # rest" "j = Suc (Suc i + n)"
    by auto
  then have "None # es = replicate (Suc n) None @ Some (k, v) # rest \<and> j = Suc (i + Suc n)"
    by simp
  then show ?case by blast
next
  case (3 k' v es i)
  then have "Some (k', v) # es = replicate 0 None @ Some (k, v) # es \<and> j = Suc (i + 0)" by simp
  then show ?case by blast
qed simp

text \<open>
  One eviction: with only empty records behind it and a live entry somewhere, the
  iterator yields the key of the oldest live entry, and deleting that key leaves only
  empty records behind the iterator's new position.
\<close>

lemma evict_step:
  assumes pre: "take i m = replicate i None" and ne: "Map_entries m \<noteq> []"
  shows "\<exists>k j. advance (drop i m) i = Some (k, j) \<and>
           take j (snd (Map_delete k m)) = replicate j None \<and>
           Map_entries (snd (Map_delete k m)) = tl (Map_entries m) \<and>
           k = fst (hd (Map_entries m))"
proof -
  have m: "m = replicate i None @ drop i m" by (rule prefix_split [OF pre])
  then have "Map_entries (drop i m) = Map_entries m" by (metis Map_entries_prefix)
  with ne have "advance (drop i m) i \<noteq> None" by (simp add: advance_None)
  then obtain k j where adv: "advance (drop i m) i = Some (k, j)" by auto
  from advance_Some [OF adv] obtain n v rest
    where d: "drop i m = replicate n None @ Some (k, v) # rest" and j: "j = Suc (i + n)"
    by blast
  from m d have m': "m = replicate (i + n) None @ Some (k, v) # rest"
    by (simp add: replicate_add)
  have del: "snd (Map_delete k m) = replicate (i + n) None @ None # rest"
    by (subst m') (rule Map_delete_hit)
  then have del': "snd (Map_delete k m) = replicate j None @ rest"
    using j by (simp add: replicate_append_same)
  have e: "Map_entries m = (k, v) # Map_entries rest"
    by (subst m') (simp add: Map_entries_prefix)
  have "take j (snd (Map_delete k m)) = replicate j None" by (simp add: del')
  moreover have "Map_entries (snd (Map_delete k m)) = tl (Map_entries m)"
    by (simp add: del' e Map_entries_prefix)
  moreover have "k = fst (hd (Map_entries m))" by (simp add: e)
  ultimately show ?thesis using adv by blast
qed


section \<open>One call keeps the invariant\<close>

lemma guard_nonempty: "valid_size n \<Longrightarrow> js_ge (Num (of_nat k)) n \<Longrightarrow> 0 < k"
  by (cases n; cases k) (auto simp: not_less)

lemma guard_integral: "js_ge (Num (of_nat n)) (Num (of_nat c)) \<longleftrightarrow> c < n + 1"
  by (auto simp: not_less)

lemma model_set_integral:
  "model_set (of_nat N) key val q =
     (if key \<in> fst ` set q then queue_update key val q
      else if N < length q + 1 then tl q @ [(key, val)]
      else q @ [(key, val)])"
  unfolding model_set_def of_nat_less_iff ..

lemma set_slm_overwrite:
  "Map_has k (map_data s) \<Longrightarrow> set_slm k v s = s\<lparr>map_data := Map_set k v (map_data s)\<rparr>"
  by (simp add: set_slm_def)

lemma set_slm_append:
  "\<not> Map_has k (map_data s) \<Longrightarrow> \<not> js_ge (Num (of_nat (Map_size (map_data s)))) (maxSize s) \<Longrightarrow>
   set_slm k v s = s\<lparr>map_data := Map_set k v (map_data s)\<rparr>"
  by (simp add: set_slm_def)

lemma set_slm_evict:
  "\<not> Map_has k (map_data s) \<Longrightarrow> js_ge (Num (of_nat (Map_size (map_data s)))) (maxSize s) \<Longrightarrow>
   set_slm k v s =
     (let (r, it) = iterator_next (map_data s) (keysIterator s) in
        s\<lparr>map_data := Map_set k v (snd (Map_delete (result_value r) (map_data s))),
          keysIterator := it\<rparr>)"
  by (simp add: set_slm_def split: prod.splits)

text \<open>What the iterator yields when \<open>set\<close> asks it: the oldest live key.\<close>

lemma next_yields_oldest:
  assumes inv: "slm_inv s" and ne: "entries s \<noteq> []"
  shows "\<exists>j. iterator_next (map_data s) (keysIterator s) =
           (\<lparr>result_value = hd (keys s), result_done = False\<rparr>, (keysIterator s)\<lparr>index := j\<rparr>) \<and>
         take j (snd (Map_delete (hd (keys s)) (map_data s))) = replicate j None \<and>
         Map_entries (snd (Map_delete (hd (keys s)) (map_data s))) = tl (entries s)"
proof -
  let ?m = "map_data s" and ?i = "index (keysIterator s)"
  from inv have nf: "\<not> finished (keysIterator s)"
    and pre: "take ?i ?m = replicate ?i None"
    by (simp_all add: slm_inv_def)
  from ne have ne': "Map_entries ?m \<noteq> []" by (simp add: entries_def)
  from evict_step [OF pre ne'] obtain key j
    where adv: "advance (drop ?i ?m) ?i = Some (key, j)"
      and pre': "take j (snd (Map_delete key ?m)) = replicate j None"
      and ent: "Map_entries (snd (Map_delete key ?m)) = tl (Map_entries ?m)"
      and key: "key = fst (hd (Map_entries ?m))"
    by blast
  have hd: "hd (keys s) = key" using ne' key by (simp add: keys_def hd_map)
  have "iterator_next ?m (keysIterator s) =
        (\<lparr>result_value = key, result_done = False\<rparr>, (keysIterator s)\<lparr>index := j\<rparr>)"
    using nf adv by (simp add: iterator_next_def)
  with pre' ent hd show ?thesis by (auto simp: entries_def)
qed

lemma set_slm_step:
  assumes inv: "slm_inv s"
  shows "slm_inv (set_slm k v s) \<and> maxSize (set_slm k v s) = maxSize s \<and>
         entries (set_slm k v s) =
           (if k \<in> fst ` set (entries s) then queue_update k v (entries s)
            else if js_ge (Num (of_nat (length (entries s)))) (maxSize s)
              then tl (entries s) @ [(k, v)]
            else entries s @ [(k, v)])"
proof -
  let ?m = "map_data s" and ?i = "index (keysIterator s)"
  from inv have cap: "valid_size (maxSize s)"
    and nf: "\<not> finished (keysIterator s)"
    and pre: "take ?i ?m = replicate ?i None"
    and dist: "distinct (map fst (Map_entries ?m))"
    by (simp_all add: slm_inv_def)
  consider (overwrite) "Map_has k ?m"
    | (append) "\<not> Map_has k ?m" "\<not> js_ge (Num (of_nat (Map_size ?m))) (maxSize s)"
    | (evict) "\<not> Map_has k ?m" "js_ge (Num (of_nat (Map_size ?m))) (maxSize s)"
    by blast
  then show ?thesis
  proof cases
    case overwrite
    then have "k \<in> fst ` set (Map_entries ?m)" by (simp add: Map_has_entries)
    then show ?thesis
      using cap nf pre dist overwrite
      by (simp add: set_slm_overwrite slm_inv_def take_Map_set fst_queue_update
          entries_def Map_entries_set_present)
  next
    case append
    then have "k \<notin> fst ` set (Map_entries ?m)"
      "\<not> js_ge (Num (of_nat (length (Map_entries ?m)))) (maxSize s)"
      by (simp_all add: Map_has_entries Map_size_entries)
    then show ?thesis
      using cap nf pre dist append
      by (simp add: set_slm_append [OF append] slm_inv_def take_Map_set
          entries_def Map_entries_set_absent)
  next
    case evict
    from guard_nonempty [OF cap evict(2)] have ne: "entries s \<noteq> []"
      by (auto simp: Map_size_entries entries_def)
    from next_yields_oldest [OF inv ne] obtain j
      where nxt: "iterator_next ?m (keysIterator s) =
          (\<lparr>result_value = hd (keys s), result_done = False\<rparr>, (keysIterator s)\<lparr>index := j\<rparr>)"
        and pre': "take j (snd (Map_delete (hd (keys s)) ?m)) = replicate j None"
        and ent: "Map_entries (snd (Map_delete (hd (keys s)) ?m)) = tl (entries s)"
      by blast
    let ?m' = "snd (Map_delete (hd (keys s)) ?m)"
    have s': "set_slm k v s =
        s\<lparr>map_data := Map_set k v ?m', keysIterator := (keysIterator s)\<lparr>index := j\<rparr>\<rparr>"
      by (simp add: set_slm_evict [OF evict] nxt)
    have absent: "k \<notin> fst ` set (entries s)"
      using evict(1) by (simp add: Map_has_entries entries_def)
    have "set (tl (entries s)) \<subseteq> set (entries s)"
      using ne by (cases "entries s") auto
    with absent have absent': "\<not> Map_has k ?m'"
      by (auto simp: Map_has_entries ent)
    have g: "js_ge (Num (of_nat (length (entries s)))) (maxSize s)"
      using evict(2) by (simp add: Map_size_entries entries_def)
    have "entries (set_slm k v s) = tl (entries s) @ [(k, v)]"
      by (simp add: s' entries_def Map_entries_set_absent [OF absent'] ent [unfolded entries_def])
    moreover have "slm_inv (set_slm k v s)"
      using cap nf pre' dist
      by (simp add: s' slm_inv_def take_Map_set distinct_Map_set distinct_Map_delete)
    moreover have "maxSize (set_slm k v s) = maxSize s" by (simp add: s')
    ultimately show ?thesis using absent g by simp
  qed
qed

lemma delete_step:
  assumes inv: "slm_inv s"
  shows "slm_inv (snd (delete k s)) \<and> maxSize (snd (delete k s)) = maxSize s \<and>
         entries (snd (delete k s)) = filter (\<lambda>e. fst e \<noteq> k) (entries s)"
  using inv
  by (simp add: delete_def slm_inv_def take_Map_delete entries_def
      Map_entries_delete distinct_map_filter)

lemma clear_step:
  assumes inv: "slm_inv s"
  shows "slm_inv (clear s) \<and> maxSize (clear s) = maxSize s \<and> entries (clear s) = []"
  using inv
  by (simp add: clear_def slm_inv_def take_Map_clear entries_def Map_entries_clear)

lemma exec_inv: "slm_inv s \<Longrightarrow> slm_inv (exec cmd s) \<and> maxSize (exec cmd s) = maxSize s"
  by (cases cmd) (simp_all add: set_slm_step delete_step clear_step)

lemma run_inv: "slm_inv s \<Longrightarrow> slm_inv (run cmds s) \<and> maxSize (run cmds s) = maxSize s"
proof (induction cmds arbitrary: s)
  case Nil
  then show ?case by (simp add: run_def)
next
  case (Cons cmd cmds)
  from exec_inv [OF Cons.prems] Cons.IH [of "exec cmd s"] show ?case
    by (simp add: run_def)
qed

lemma constructor_Inr:
  "constructor a es = Inr s \<longleftrightarrow>
   (\<exists>q. a = Number (Num q) \<and> 1 \<le> q \<and>
        s = \<lparr>maxSize = Num q, map_data = new_Map es, keysIterator = Map_keys\<rparr>)"
proof (cases a)
  case (Number n)
  then show ?thesis by (cases n) (auto simp: constructor_def not_less)
next
  case NotNumber
  then show ?thesis by (simp add: constructor_def)
qed

lemma constructor_inv: "constructor a es = Inr s \<Longrightarrow> slm_inv s"
  by (auto simp: constructor_Inr slm_inv_def Map_keys_def distinct_new_Map)

lemma reachable_inv: "constructor a es = Inr s0 \<Longrightarrow> slm_inv (run cmds s0)"
  using constructor_inv run_inv by blast

text \<open>With an integral size limit, one call is one step of the reference model.\<close>

lemma exec_refines:
  assumes inv: "slm_inv s" and cap: "maxSize s = Num (of_nat c)"
  shows "entries (exec cmd s) = model_exec (of_nat c) cmd (entries s)"
proof (cases cmd)
  case (Set k v)
  then show ?thesis
    using set_slm_step [OF inv, of k v] cap
    by (simp add: model_set_integral guard_integral del: js_ge.simps)
next
  case (Delete k)
  then show ?thesis using delete_step [OF inv] by (simp add: model_delete_def)
next
  case Clear
  then show ?thesis using clear_step [OF inv] by simp
qed

lemma run_refines:
  assumes "slm_inv s" and "maxSize s = Num (of_nat c)"
  shows "entries (run cmds s) = model_run (of_nat c) cmds (entries s)"
  using assms
proof (induction cmds arbitrary: s)
  case Nil
  then show ?case by (simp add: run_def model_run_def)
next
  case (Cons cmd cmds)
  from exec_inv [OF Cons.prems(1)] Cons.prems(2)
  have "slm_inv (exec cmd s)" "maxSize (exec cmd s) = Num (of_nat c)" by simp_all
  from Cons.IH [OF this] exec_refines [OF Cons.prems] show ?case
    by (simp add: run_def model_run_def)
qed

lemma fresh_state:
  assumes "1 \<le> c" and "constructor (Number (Num (of_nat c))) [] = Inr s0"
  shows "s0 = \<lparr>maxSize = Num (of_nat c), map_data = [], keysIterator = Map_keys\<rparr>"
  using assms by (simp add: constructor_def new_Map_def not_less split: if_splits)

lemma fresh_constructs:
  "1 \<le> c \<Longrightarrow> constructor (Number (Num (of_nat c))) [] =
     Inr \<lparr>maxSize = Num (of_nat c), map_data = [], keysIterator = Map_keys\<rparr>"
  by (simp add: constructor_def new_Map_def not_less)


lemma model_exec_length:
  assumes "0 < c" and "length q \<le> c"
  shows "length (model_exec (of_nat c) cmd q) \<le> c"
proof (cases cmd)
  case (Set k v)
  with assms show ?thesis
    by (cases q) (auto simp: model_set_integral length_queue_update)
next
  case (Delete k)
  have "length (filter (\<lambda>e. fst e \<noteq> k) q) \<le> length q" by (rule length_filter_le)
  then have "length (model_delete k q) \<le> c"
    unfolding model_delete_def using assms(2) by (rule le_trans)
  with Delete show ?thesis by simp
next
  case Clear
  then show ?thesis by simp
qed

lemma model_run_length:
  "0 < c \<Longrightarrow> length q \<le> c \<Longrightarrow> length (model_run (of_nat c) cmds q) \<le> c"
proof (induction cmds arbitrary: q)
  case Nil
  then show ?case by (simp add: model_run_def)
next
  case (Cons cmd cmds)
  from model_exec_length [OF Cons.prems] Cons.IH [OF Cons.prems(1), of "model_exec (of_nat c) cmd q"]
  show ?case by (simp add: model_run_def)
qed

lemma fresh_run:
  assumes "1 \<le> c" and "constructor (Number (Num (of_nat c))) [] = Inr s0"
  shows "slm_inv (run cmds s0) \<and> maxSize (run cmds s0) = Num (of_nat c) \<and>
         entries (run cmds s0) = model_run (of_nat c) cmds []"
proof -
  from fresh_state [OF assms] have s0: "maxSize s0 = Num (of_nat c)" "entries s0 = []"
    by (simp_all add: entries_def)
  from constructor_inv [OF assms(2)] have inv: "slm_inv s0" .
  from run_inv [OF inv] run_refines [OF inv s0(1)] s0 show ?thesis by simp
qed

section \<open>Facts about the reference model and about untouched keys\<close>

lemma model_run_fresh_sets:
  assumes "0 < N" and "length q \<le> N" and "distinct (map fst (q @ kvs))"
  shows "model_run (of_nat N) (map (\<lambda>(k, v). Set k v) kvs) q = drop (length q + length kvs - N) (q @ kvs)"
  using assms(2,3)
proof (induction kvs arbitrary: q)
  case Nil
  then show ?case by (simp add: model_run_def)
next
  case (Cons kv kvs)
  obtain k v where kv: "kv = (k, v)" by (cases kv)
  from Cons.prems(2) kv have fresh: "k \<notin> fst ` set q" by auto
  show ?case
  proof (cases "N < length q + 1")
    case True
    with Cons.prems(1) have len: "length q = N" by simp
    with assms(1) obtain e r where q: "q = e # r" by (cases q) auto
    let ?q' = "r @ [(k, v)]"
    have step: "model_set (of_nat N) k v q = ?q'"
      using fresh True by (simp add: model_set_integral q)
    have "length ?q' \<le> N" "distinct (map fst (?q' @ kvs))"
      using len q Cons.prems(2) kv by auto
    from Cons.IH [OF this] have ih:
      "model_run (of_nat N) (map (\<lambda>(k, v). Set k v) kvs) ?q' = drop (length ?q' + length kvs - N) (?q' @ kvs)" .
    have a1: "length ?q' + length kvs - N = length kvs" using len q by simp
    have a2: "length q + length (kv # kvs) - N = Suc (length kvs)" using len by simp
    have "drop (Suc (length kvs)) (q @ kv # kvs) = drop (length kvs) (?q' @ kvs)"
      by (simp add: q kv)
    with ih have "model_run (of_nat N) (map (\<lambda>(k, v). Set k v) kvs) ?q' =
        drop (length q + length (kv # kvs) - N) (q @ kv # kvs)"
      by (simp only: a1 a2)
    then show ?thesis
      using step kv by (simp add: model_run_def)
  next
    case False
    let ?q' = "q @ [(k, v)]"
    have step: "model_set (of_nat N) k v q = ?q'"
      using fresh False by (simp add: model_set_integral)
    have "length ?q' \<le> N" "distinct (map fst (?q' @ kvs))"
      using False Cons.prems(2) kv by auto
    from Cons.IH [OF this] step kv show ?thesis
      by (simp add: model_run_def)
  qed
qed

lemma map_of_queue_update_other: "k' \<noteq> k \<Longrightarrow> map_of (queue_update k v q) k' = map_of q k'"
  by (induction k v q rule: queue_update.induct) auto

lemma map_of_filter_other:
  "k' \<noteq> k \<Longrightarrow> map_of (filter (\<lambda>e. fst e \<noteq> k) q) k' = map_of q k'"
  by (induction q) auto

lemma map_of_tl_distinct:
  "distinct (map fst q) \<Longrightarrow> map_of (tl q) k = map_of q k \<or> map_of (tl q) k = None"
  by (cases q) (auto simp: map_of_eq_None_iff)

lemma length_filter_key:
  "distinct (map fst q) \<Longrightarrow> k \<in> fst ` set q \<Longrightarrow>
   Suc (length (filter (\<lambda>e. fst e \<noteq> k) q)) = length q"
proof (induction q)
  case Nil
  then show ?case by simp
next
  case (Cons e q)
  show ?case
  proof (cases "fst e = k")
    case True
    from Cons.prems(1) have "fst e \<notin> fst ` set q" by simp
    with True have "\<forall>x \<in> set q. fst x \<noteq> k" by blast
    then have "filter (\<lambda>e. fst e \<noteq> k) q = q" by (simp add: filter_id_conv)
    with True show ?thesis by simp
  next
    case False
    with Cons show ?thesis by auto
  qed
qed

lemma get_entries: "get k s = map_of (entries s) k"
  by (simp add: get_def entries_def Map_get_entries)

lemma has_entries: "has k s \<longleftrightarrow> k \<in> fst ` set (entries s)"
  by (simp add: has_def entries_def Map_has_entries)

lemma get_after_set: "get k (set_slm k v s) = Some v"
  by (simp add: get_def set_slm_def Let_def Map_get_set_same split: prod.splits)

lemma untouched_step:
  assumes inv: "slm_inv s" and other: "\<not> touches k cmd"
  shows "get k (exec cmd s) = get k s \<or> get k (exec cmd s) = None"
proof (cases cmd)
  case (Set k' v')
  with other have ne: "k \<noteq> k'" by auto
  from inv have dist: "distinct (map fst (entries s))" by (simp add: slm_inv_def entries_def)
  from set_slm_step [OF inv, of k' v'] have
    "entries (set_slm k' v' s) = queue_update k' v' (entries s) \<or>
     entries (set_slm k' v' s) = tl (entries s) @ [(k', v')] \<or>
     entries (set_slm k' v' s) = entries s @ [(k', v')]"
    by presburger
  then show ?thesis
  proof (elim disjE)
    assume "entries (set_slm k' v' s) = queue_update k' v' (entries s)"
    with ne Set show ?thesis by (simp add: get_entries map_of_queue_update_other)
  next
    assume "entries (set_slm k' v' s) = tl (entries s) @ [(k', v')]"
    then have "get k (set_slm k' v' s) = map_of (tl (entries s)) k"
      using ne by (simp add: get_entries map_add_def split: option.splits)
    with map_of_tl_distinct [OF dist, of k] Set show ?thesis by (simp add: get_entries)
  next
    assume "entries (set_slm k' v' s) = entries s @ [(k', v')]"
    with ne Set show ?thesis by (simp add: get_entries map_add_def split: option.splits)
  qed
next
  case (Delete k')
  with other have ne: "k \<noteq> k'" by auto
  from delete_step [OF inv, of k'] ne Delete show ?thesis
    by (simp add: get_entries map_of_filter_other)
next
  case Clear
  from clear_step [OF inv] Clear show ?thesis by (simp add: get_entries)
qed

lemma untouched_run:
  assumes "slm_inv s" and "\<forall>cmd \<in> set cmds. \<not> touches k cmd"
  shows "get k (run cmds s) = get k s \<or> get k (run cmds s) = None"
  using assms
proof (induction cmds arbitrary: s)
  case Nil
  then show ?case by (simp add: run_def)
next
  case (Cons cmd cmds)
  from Cons.prems have inv': "slm_inv (exec cmd s)" and rest: "\<forall>c \<in> set cmds. \<not> touches k c"
    and this_one: "\<not> touches k cmd"
    by (simp_all add: exec_inv)
  from Cons.IH [OF inv' rest] have
    ih: "get k (run cmds (exec cmd s)) = get k (exec cmd s) \<or> get k (run cmds (exec cmd s)) = None" .
  have unfold: "run (cmd # cmds) s = run cmds (exec cmd s)" by (simp add: run_def)
  from untouched_step [OF Cons.prems(1) this_one] ih show ?case
    unfolding unfold by auto
qed

section \<open>The claims\<close>

text \<open>
  Claim C1, amended. For every integral capacity \<open>c \<ge> 1\<close> and a map constructed as
  \<open>new(c)\<close> with no initial entries, \<open>size \<le> c\<close> holds after every call of any finite
  sequence of \<open>set\<close> and \<open>delete\<close> calls (and of \<open>clear\<close> calls as well): after the
  first \<open>n\<close> calls of the sequence, for every \<open>n\<close>.
\<close>

theorem capacity_invariant:
  assumes "1 \<le> c" and "constructor (Number (Num (of_nat c))) [] = Inr s0"
  shows "size_slm (run (take n cmds) s0) \<le> c"
proof -
  from fresh_run [OF assms] have "entries (run (take n cmds) s0) = model_run (of_nat c) (take n cmds) []"
    by simp
  moreover have "length (model_run (of_nat c) (take n cmds) []) \<le> c"
    using assms(1) by (intro model_run_length) simp_all
  ultimately show ?thesis by (simp add: size_slm_def Map_size_entries entries_def)
qed

theorem capacity_invariant_witness:
  "constructor (Number (Num (of_nat 2))) [] =
     Inr \<lparr>maxSize = Num 2, map_data = [], keysIterator = \<lparr>index = 0, finished = False\<rparr>\<rparr> \<and>
   size_slm (run (take 4 [Set (Val ''a'') (1::nat), Set (Val ''b'') 2, Set (Val ''c'') 3,
                          Delete (Val ''b''), Set (Val ''d'') 4])
     \<lparr>maxSize = Num 2, map_data = [], keysIterator = \<lparr>index = 0, finished = False\<rparr>\<rparr>) \<le> 2"
  using capacity_invariant [of 2
      "\<lparr>maxSize = Num 2, map_data = [], keysIterator = \<lparr>index = 0, finished = False\<rparr>\<rparr>" 4
      "[Set (Val ''a'') (1::nat), Set (Val ''b'') 2, Set (Val ''c'') 3,
        Delete (Val ''b''), Set (Val ''d'') 4]"]
  by (simp add: constructor_def new_Map_def Map_keys_def)

text \<open>
  Claim C1 as it is worded, for every capacity the constructor accepts, fails at the
  capacity 3/2: the constructor accepts it, and after \<open>set(a, 1); set(b, 2)\<close> the size
  is 2, which is more than 3/2.
\<close>

theorem capacity_invariant_counterexample:
  "constructor (Number (Num (3 / 2))) [] =
     Inr \<lparr>maxSize = Num (3 / 2), map_data = [] :: (string, nat) mapdata,
          keysIterator = \<lparr>index = 0, finished = False\<rparr>\<rparr> \<and>
   size_slm (run [Set (Val ''a'') (1::nat), Set (Val ''b'') 2]
     \<lparr>maxSize = Num (3 / 2), map_data = [],
      keysIterator = \<lparr>index = 0, finished = False\<rparr>\<rparr>) = 2 \<and>
   \<not> (of_nat (size_slm (run [Set (Val ''a'') (1::nat), Set (Val ''b'') 2]
     \<lparr>maxSize = Num (3 / 2), map_data = [],
      keysIterator = \<lparr>index = 0, finished = False\<rparr>\<rparr>)) \<le> (3 / 2 :: rat))"
  by (simp add: constructor_def new_Map_def Map_keys_def run_def set_slm_def size_slm_def)

text \<open>
  Claim C2 says that the constructor loads the initial entries as successive \<open>set\<close>
  calls would, evicting the earliest ones. The constructor hands them to \<open>new Map\<close>
  instead: with capacity 1 and the entries a, b the map holds both, size 2, whereas
  setting a and then b on an empty map of capacity 1 leaves b alone.
\<close>

theorem constructor_keeps_all_entries:
  "constructor (Number (Num 1)) [(Val ''a'', 1::nat), (Val ''b'', 2)] =
     Inr \<lparr>maxSize = Num 1, map_data = [Some (Val ''a'', 1), Some (Val ''b'', 2)],
          keysIterator = \<lparr>index = 0, finished = False\<rparr>\<rparr> \<and>
   size_slm \<lparr>maxSize = Num 1, map_data = [Some (Val ''a'', 1::nat), Some (Val ''b'', 2)],
          keysIterator = \<lparr>index = 0, finished = False\<rparr>\<rparr> = 2 \<and>
   has (Val ''a'') \<lparr>maxSize = Num 1, map_data = [Some (Val ''a'', 1::nat), Some (Val ''b'', 2)],
          keysIterator = \<lparr>index = 0, finished = False\<rparr>\<rparr> \<and>
   entries (run [Set (Val ''a'') (1::nat), Set (Val ''b'') 2]
     \<lparr>maxSize = Num 1, map_data = [], keysIterator = \<lparr>index = 0, finished = False\<rparr>\<rparr>) =
     [(Val ''b'', 2)]"
  by (simp add: constructor_def new_Map_def Map_keys_def size_slm_def has_def entries_def run_def
      set_slm_def iterator_next_def)

text \<open>
  Claim C3, amended. For every integral capacity \<open>N \<ge> 1\<close> and every interleaving of
  \<open>set\<close> and \<open>delete\<close> calls (and \<open>clear\<close> calls) on a map constructed empty, the
  observable state of the
  map, its entries in insertion order and with them its keys, values, size and every
  \<open>get\<close> and \<open>has\<close>, is that of the reference model, which keeps an explicit queue of
  the live keys, appends new keys at the back and evicts the head whenever a new key
  would exceed \<open>N\<close>.
\<close>

theorem model_equivalence:
  assumes "1 \<le> N" and "constructor (Number (Num (of_nat N))) [] = Inr s0"
  shows "entries (run cmds s0) = model_run (of_nat N) cmds [] \<and>
         keys (run cmds s0) = map fst (model_run (of_nat N) cmds []) \<and>
         values_slm (run cmds s0) = map snd (model_run (of_nat N) cmds []) \<and>
         size_slm (run cmds s0) = length (model_run (of_nat N) cmds []) \<and>
         get k (run cmds s0) = map_of (model_run (of_nat N) cmds []) k \<and>
         has k (run cmds s0) = (k \<in> fst ` set (model_run (of_nat N) cmds []))"
proof -
  from fresh_run [OF assms] have "entries (run cmds s0) = model_run (of_nat N) cmds []" by simp
  then have "Map_entries (map_data (run cmds s0)) = model_run (of_nat N) cmds []"
    by (simp add: entries_def)
  then show ?thesis
    by (simp add: entries_def keys_def values_slm_def size_slm_def get_def has_def
        Map_size_entries Map_get_entries Map_has_entries)
qed

theorem model_equivalence_witness:
  "entries (run [Set (Val ''a'') (1::nat), Set (Val ''b'') 2, Delete (Val ''a''),
                 Set (Val ''c'') 3, Set (Val ''b'') 5, Set (Val ''d'') 4]
     \<lparr>maxSize = Num 2, map_data = [], keysIterator = \<lparr>index = 0, finished = False\<rparr>\<rparr>) =
   [(Val ''c'', 3), (Val ''d'', 4)]"
  using model_equivalence [of 2
      "\<lparr>maxSize = Num 2, map_data = [], keysIterator = \<lparr>index = 0, finished = False\<rparr>\<rparr>"
      "[Set (Val ''a'') (1::nat), Set (Val ''b'') 2, Delete (Val ''a''),
        Set (Val ''c'') 3, Set (Val ''b'') 5, Set (Val ''d'') 4]"]
  by (simp add: constructor_def new_Map_def Map_keys_def model_run_def model_set_def
      model_delete_def)

text \<open>
  Claim C3 as it is worded, for every capacity the constructor accepts, fails at the
  capacity 3/2: after \<open>set(a, 1); set(b, 2)\<close> the map holds a and b, since the size 1
  is not \<open>>= 3/2\<close>, whereas the reference model evicts a, since a second key would
  exceed 3/2.
\<close>

theorem model_equivalence_counterexample:
  "constructor (Number (Num (3 / 2))) [] =
     Inr \<lparr>maxSize = Num (3 / 2), map_data = [] :: (string, nat) mapdata,
          keysIterator = \<lparr>index = 0, finished = False\<rparr>\<rparr> \<and>
   entries (run [Set (Val ''a'') (1::nat), Set (Val ''b'') 2]
     \<lparr>maxSize = Num (3 / 2), map_data = [],
      keysIterator = \<lparr>index = 0, finished = False\<rparr>\<rparr>) =
     [(Val ''a'', 1), (Val ''b'', 2)] \<and>
   model_run (3 / 2) [Set (Val ''a'') (1::nat), Set (Val ''b'') 2] [] = [(Val ''b'', 2)] \<and>
   entries (run [Set (Val ''a'') (1::nat), Set (Val ''b'') 2]
     \<lparr>maxSize = Num (3 / 2), map_data = [],
      keysIterator = \<lparr>index = 0, finished = False\<rparr>\<rparr>) \<noteq>
     model_run (3 / 2) [Set (Val ''a'') (1::nat), Set (Val ''b'') 2] []"
  by (simp add: constructor_def new_Map_def Map_keys_def run_def set_slm_def entries_def
      model_run_def model_set_def)

text \<open>
  Claim C4. In every state reached from an empty construction by \<open>set\<close>, \<open>delete\<close> and
  \<open>clear\<close> calls, the key iterator has not finished; and when \<open>set\<close> is called with a
  new key while the size equals the capacity, the guard \<open>size >= maxSize\<close> holds, the
  iterator yields a key with \<open>done = false\<close>, that key is the oldest key present in the
  map, and after the call the oldest entry is gone, the new one is last and the size is
  still the capacity. The branch in which the iterator is exhausted is never taken.
\<close>

theorem cursor_never_exhausted:
  assumes "1 \<le> c" and "constructor (Number (Num (of_nat c))) [] = Inr s0"
    and "s = run cmds s0" and "\<not> has k s" and "size_slm s = c"
  shows "\<not> finished (keysIterator s) \<and>
         js_ge (Num (of_nat (size_slm s))) (maxSize s) \<and>
         (\<exists>it. iterator_next (map_data s) (keysIterator s) =
                 (\<lparr>result_value = hd (keys s), result_done = False\<rparr>, it) \<and> \<not> finished it) \<and>
         has (hd (keys s)) s \<and>
         entries (set_slm k v s) = tl (entries s) @ [(k, v)] \<and>
         size_slm (set_slm k v s) = c"
proof -
  from fresh_run [OF assms(1,2)] assms(3)
  have inv: "slm_inv s" and cap: "maxSize s = Num (of_nat c)" by simp_all
  from assms(1,5) have len: "length (entries s) = c" and ne: "entries s \<noteq> []"
    by (auto simp: size_slm_def Map_size_entries entries_def)
  from inv have nf: "\<not> finished (keysIterator s)" by (simp add: slm_inv_def)
  from next_yields_oldest [OF inv ne] obtain j
    where nxt: "iterator_next (map_data s) (keysIterator s) =
        (\<lparr>result_value = hd (keys s), result_done = False\<rparr>, (keysIterator s)\<lparr>index := j\<rparr>)"
    by blast
  have "\<not> finished ((keysIterator s)\<lparr>index := j\<rparr>)" using nf by simp
  with nxt have yields: "\<exists>it. iterator_next (map_data s) (keysIterator s) =
      (\<lparr>result_value = hd (keys s), result_done = False\<rparr>, it) \<and> \<not> finished it"
    by blast
  have present: "has (hd (keys s)) s"
    using ne by (cases "Map_entries (map_data s)")
      (auto simp: has_def keys_def entries_def Map_has_entries)
  have guard: "js_ge (Num (of_nat (size_slm s))) (maxSize s)"
    using assms(5) cap by simp
  have absent: "k \<notin> fst ` set (entries s)"
    using assms(4) by (simp add: has_def Map_has_entries entries_def)
  from set_slm_step [OF inv, of k v] absent guard
  have ent: "entries (set_slm k v s) = tl (entries s) @ [(k, v)]"
    by (simp add: size_slm_def Map_size_entries entries_def del: js_ge.simps)
  then have "size_slm (set_slm k v s) = length (tl (entries s) @ [(k, v)])"
    by (simp add: size_slm_def Map_size_entries entries_def)
  with len ne have "size_slm (set_slm k v s) = c" by (cases "entries s") auto
  with nf guard yields present ent show ?thesis by blast
qed

theorem cursor_never_exhausted_witness:
  "iterator_next
     (map_data (run [Set (Val ''a'') (1::nat), Set (Val ''b'') 2, Delete (Val ''a''), Clear,
                     Set (Val ''c'') 3, Set (Val ''d'') 4]
        \<lparr>maxSize = Num 2, map_data = [], keysIterator = \<lparr>index = 0, finished = False\<rparr>\<rparr>))
     (keysIterator (run [Set (Val ''a'') (1::nat), Set (Val ''b'') 2, Delete (Val ''a''), Clear,
                     Set (Val ''c'') 3, Set (Val ''d'') 4]
        \<lparr>maxSize = Num 2, map_data = [], keysIterator = \<lparr>index = 0, finished = False\<rparr>\<rparr>)) =
   (\<lparr>result_value = Val ''c'', result_done = False\<rparr>, \<lparr>index = 3, finished = False\<rparr>)"
  using cursor_never_exhausted [of 2
      "\<lparr>maxSize = Num 2, map_data = [], keysIterator = \<lparr>index = 0, finished = False\<rparr>\<rparr>"
      "run [Set (Val ''a'') (1::nat), Set (Val ''b'') 2, Delete (Val ''a''), Clear,
            Set (Val ''c'') 3, Set (Val ''d'') 4]
        \<lparr>maxSize = Num 2, map_data = [], keysIterator = \<lparr>index = 0, finished = False\<rparr>\<rparr>"
      "[Set (Val ''a'') (1::nat), Set (Val ''b'') 2, Delete (Val ''a''), Clear,
            Set (Val ''c'') 3, Set (Val ''d'') 4]"
      "Val ''e''" 5]
  by (simp add: constructor_def new_Map_def Map_keys_def run_def set_slm_def delete_def clear_def
      Map_clear_def has_def size_slm_def keys_def iterator_next_def)

text \<open>
  Claim C5. For every capacity \<open>n \<ge> 1\<close>, setting \<open>n + 1\<close> distinct keys
  \<open>k1 .. k(n+1)\<close> in order on a map constructed empty leaves \<open>k1\<close> absent and
  \<open>k2 .. k(n+1)\<close> present, in that insertion order, with size \<open>n\<close>. The witness is
  the scenario with capacity 3 and the keys a, b, c, d.
\<close>

theorem fifo_order:
  assumes "1 \<le> n" and "constructor (Number (Num (of_nat n))) [] = Inr s0"
    and "length kvs = n + 1" and "distinct (map fst kvs)"
  shows "entries (run (map (\<lambda>(k, v). Set k v) kvs) s0) = tl kvs \<and>
         keys (run (map (\<lambda>(k, v). Set k v) kvs) s0) = map fst (tl kvs) \<and>
         size_slm (run (map (\<lambda>(k, v). Set k v) kvs) s0) = n \<and>
         \<not> has (fst (hd kvs)) (run (map (\<lambda>(k, v). Set k v) kvs) s0) \<and>
         (\<forall>k \<in> set (map fst (tl kvs)). has k (run (map (\<lambda>(k, v). Set k v) kvs) s0))"
proof -
  let ?s = "run (map (\<lambda>(k, v). Set k v) kvs) s0"
  from assms(3) obtain e r where kvs: "kvs = e # r" by (cases kvs) auto
  from model_run_fresh_sets [of n "[]" kvs] assms(1,4)
  have "model_run (of_nat n) (map (\<lambda>(k, v). Set k v) kvs) [] = drop (length kvs - n) kvs"
    by simp
  then have "model_run (of_nat n) (map (\<lambda>(k, v). Set k v) kvs) [] = tl kvs"
    using assms(3) by (simp add: kvs)
  with fresh_run [OF assms(1,2)] have e: "entries ?s = tl kvs" by simp
  then have m: "Map_entries (map_data ?s) = tl kvs" by (simp add: entries_def)
  have "fst (hd kvs) \<notin> fst ` set (tl kvs)" using assms(4) by (auto simp: kvs)
  with e m assms(3) show ?thesis
    by (simp add: keys_def size_slm_def has_def Map_size_entries Map_has_entries)
qed

theorem fifo_order_witness:
  "size_slm (run [Set (Val ''a'') (1::nat), Set (Val ''b'') 2, Set (Val ''c'') 3, Set (Val ''d'') 4]
     \<lparr>maxSize = Num 3, map_data = [], keysIterator = \<lparr>index = 0, finished = False\<rparr>\<rparr>) = 3 \<and>
   \<not> has (Val ''a'') (run [Set (Val ''a'') (1::nat), Set (Val ''b'') 2, Set (Val ''c'') 3, Set (Val ''d'') 4]
     \<lparr>maxSize = Num 3, map_data = [], keysIterator = \<lparr>index = 0, finished = False\<rparr>\<rparr>) \<and>
   has (Val ''b'') (run [Set (Val ''a'') (1::nat), Set (Val ''b'') 2, Set (Val ''c'') 3, Set (Val ''d'') 4]
     \<lparr>maxSize = Num 3, map_data = [], keysIterator = \<lparr>index = 0, finished = False\<rparr>\<rparr>) \<and>
   has (Val ''c'') (run [Set (Val ''a'') (1::nat), Set (Val ''b'') 2, Set (Val ''c'') 3, Set (Val ''d'') 4]
     \<lparr>maxSize = Num 3, map_data = [], keysIterator = \<lparr>index = 0, finished = False\<rparr>\<rparr>) \<and>
   has (Val ''d'') (run [Set (Val ''a'') (1::nat), Set (Val ''b'') 2, Set (Val ''c'') 3, Set (Val ''d'') 4]
     \<lparr>maxSize = Num 3, map_data = [], keysIterator = \<lparr>index = 0, finished = False\<rparr>\<rparr>)"
  using fifo_order [of 3
      "\<lparr>maxSize = Num 3, map_data = [], keysIterator = \<lparr>index = 0, finished = False\<rparr>\<rparr>"
      "[(Val ''a'', 1::nat), (Val ''b'', 2), (Val ''c'', 3), (Val ''d'', 4)]"]
  by (simp add: constructor_def new_Map_def Map_keys_def)

text \<open>
  Claim C6. \<open>set(k, v2)\<close> on a key that is present overwrites in place: afterwards
  \<open>get(k)\<close> is \<open>v2\<close>, the size is the same, the keys in insertion order are the same
  (nothing is evicted and \<open>k\<close> keeps its position), every other key keeps its value, and
  the key iterator has not moved. This holds in every state.
\<close>

theorem overwrite_in_place:
  assumes "has k s"
  shows "get k (set_slm k v2 s) = Some v2 \<and>
         size_slm (set_slm k v2 s) = size_slm s \<and>
         keys (set_slm k v2 s) = keys s \<and>
         keysIterator (set_slm k v2 s) = keysIterator s \<and>
         (\<forall>k'. k' \<noteq> k \<longrightarrow> get k' (set_slm k v2 s) = get k' s)"
proof -
  from assms have present: "Map_has k (map_data s)" by (simp add: has_def)
  have s': "set_slm k v2 s = s\<lparr>map_data := Map_set k v2 (map_data s)\<rparr>"
    by (rule set_slm_overwrite [OF present])
  have "get k (set_slm k v2 s) = Some v2" by (rule get_after_set)
  moreover have "size_slm (set_slm k v2 s) = size_slm s"
    by (simp add: s' size_slm_def Map_size_entries Map_entries_set_present [OF present]
        length_queue_update)
  moreover have "keys (set_slm k v2 s) = keys s"
    by (simp add: s' keys_def Map_entries_set_present [OF present] fst_queue_update)
  moreover have "keysIterator (set_slm k v2 s) = keysIterator s" by (simp add: s')
  moreover have "\<forall>k'. k' \<noteq> k \<longrightarrow> get k' (set_slm k v2 s) = get k' s"
    by (simp add: s' get_def Map_get_set_other)
  ultimately show ?thesis by blast
qed

theorem overwrite_in_place_witness:
  "get (Val ''a'') (set_slm (Val ''a'') (9::nat)
     \<lparr>maxSize = Num 2, map_data = [None, Some (Val ''a'', 1), Some (Val ''b'', 2)],
      keysIterator = \<lparr>index = 1, finished = False\<rparr>\<rparr>) = Some 9 \<and>
   keys (set_slm (Val ''a'') (9::nat)
     \<lparr>maxSize = Num 2, map_data = [None, Some (Val ''a'', 1), Some (Val ''b'', 2)],
      keysIterator = \<lparr>index = 1, finished = False\<rparr>\<rparr>) = [Val ''a'', Val ''b'']"
  using overwrite_in_place [of "Val ''a''"
      "\<lparr>maxSize = Num 2, map_data = [None, Some (Val ''a'', 1::nat), Some (Val ''b'', 2)],
        keysIterator = \<lparr>index = 1, finished = False\<rparr>\<rparr>" 9]
  by (simp add: has_def keys_def)

text \<open>
  Claim C7. In every state the object can reach (any accepted size limit, any initial
  entries, any calls): \<open>delete(k)\<close> on a present key returns true, reduces the size by
  exactly one and makes \<open>has(k)\<close> false; on an absent key it returns false and leaves
  the state as it is; it never moves the key iterator; it removes exactly the entry of
  \<open>k\<close>; and when the iterator is asked next (on an eviction) it yields the oldest key
  still present, which is not the deleted key.
\<close>

theorem delete_correct:
  assumes "constructor a es = Inr s0" and "s = run cmds s0"
  shows "(has k s \<longrightarrow>
            fst (delete k s) \<and> Suc (size_slm (snd (delete k s))) = size_slm s \<and>
            \<not> has k (snd (delete k s))) \<and>
         (\<not> has k s \<longrightarrow> delete k s = (False, s)) \<and>
         keysIterator (snd (delete k s)) = keysIterator s \<and>
         entries (snd (delete k s)) = filter (\<lambda>e. fst e \<noteq> k) (entries s) \<and>
         (entries (snd (delete k s)) \<noteq> [] \<longrightarrow>
            (\<exists>it. iterator_next (map_data (snd (delete k s))) (keysIterator (snd (delete k s))) =
                    (\<lparr>result_value = hd (keys (snd (delete k s))), result_done = False\<rparr>, it)) \<and>
            hd (keys (snd (delete k s))) \<noteq> k \<and>
            has (hd (keys (snd (delete k s)))) (snd (delete k s)))"
proof -
  let ?s' = "snd (delete k s)"
  from reachable_inv [OF assms(1)] assms(2) have inv: "slm_inv s" by simp
  then have dist: "distinct (map fst (entries s))" by (simp add: slm_inv_def entries_def)
  from delete_step [OF inv, of k]
  have inv': "slm_inv ?s'" and ent: "entries ?s' = filter (\<lambda>e. fst e \<noteq> k) (entries s)"
    by simp_all
  have gone: "\<not> has k ?s'" by (auto simp: has_entries ent)
  have present: "fst (delete k s) \<and> Suc (size_slm ?s') = size_slm s \<and> \<not> has k ?s'" if "has k s"
  proof -
    from that have "k \<in> fst ` set (entries s)" by (simp add: has_entries)
    from length_filter_key [OF dist this] have "Suc (length (entries ?s')) = length (entries s)"
      by (simp add: ent)
    then have "Suc (size_slm ?s') = size_slm s"
      by (simp add: size_slm_def Map_size_entries entries_def)
    moreover have "fst (delete k s)"
      using that by (simp add: delete_def Map_delete_result has_def)
    ultimately show ?thesis using gone by simp
  qed
  have absent: "delete k s = (False, s)" if "\<not> has k s"
    using that by (simp add: delete_def has_def Map_delete_absent)
  have cursor: "keysIterator ?s' = keysIterator s" by (simp add: delete_def)
  have later: "(\<exists>it. iterator_next (map_data ?s') (keysIterator ?s') =
                    (\<lparr>result_value = hd (keys ?s'), result_done = False\<rparr>, it)) \<and>
            hd (keys ?s') \<noteq> k \<and> has (hd (keys ?s')) ?s'" if ne: "entries ?s' \<noteq> []"
  proof -
    from next_yields_oldest [OF inv' ne]
    have "\<exists>it. iterator_next (map_data ?s') (keysIterator ?s') =
                    (\<lparr>result_value = hd (keys ?s'), result_done = False\<rparr>, it)"
      by blast
    moreover have "has (hd (keys ?s')) ?s'"
      using ne by (cases "entries ?s'") (auto simp: has_entries keys_def entries_def)
    moreover from this gone have "hd (keys ?s') \<noteq> k" by auto
    ultimately show ?thesis by simp
  qed
  from present absent cursor ent later show ?thesis by blast
qed

theorem delete_correct_witness:
  "delete (Val ''b'') (run [Set (Val ''a'') (1::nat), Set (Val ''b'') 2, Set (Val ''c'') 3]
      \<lparr>maxSize = Num 2, map_data = [], keysIterator = \<lparr>index = 0, finished = False\<rparr>\<rparr>) =
   (True, \<lparr>maxSize = Num 2, map_data = [None, None, Some (Val ''c'', 3)],
           keysIterator = \<lparr>index = 1, finished = False\<rparr>\<rparr>) \<and>
   iterator_next [None, None, Some (Val ''c'', 3::nat)] \<lparr>index = 1, finished = False\<rparr> =
     (\<lparr>result_value = Val ''c'', result_done = False\<rparr>, \<lparr>index = 3, finished = False\<rparr>)"
  using delete_correct [of "Number (Num 2)" "[]"
      "\<lparr>maxSize = Num 2, map_data = [], keysIterator = \<lparr>index = 0, finished = False\<rparr>\<rparr>"
      "run [Set (Val ''a'') (1::nat), Set (Val ''b'') 2, Set (Val ''c'') 3]
        \<lparr>maxSize = Num 2, map_data = [], keysIterator = \<lparr>index = 0, finished = False\<rparr>\<rparr>"
      "[Set (Val ''a'') (1::nat), Set (Val ''b'') 2, Set (Val ''c'') 3]" "Val ''b''"]
  by (simp add: constructor_def new_Map_def Map_keys_def run_def set_slm_def delete_def
      iterator_next_def has_def)





text \<open>
  Claim C10. In every state the object can reach, right after \<open>set(k, v)\<close> the key is
  present with value \<open>v\<close> (the eviction that the call may trigger never removes the key
  being set); and after any later calls that neither set nor delete \<open>k\<close>, \<open>get(k)\<close> is
  still \<open>v\<close> whenever \<open>k\<close> is still present.
\<close>

theorem set_then_get:
  assumes "constructor a es = Inr s0" and "s = run cmds s0"
    and "\<forall>cmd \<in> set later. \<not> touches k cmd"
  shows "has k (set_slm k v s) \<and> get k (set_slm k v s) = Some v \<and>
         (has k (run later (set_slm k v s)) \<longrightarrow> get k (run later (set_slm k v s)) = Some v)"
proof -
  from reachable_inv [OF assms(1)] assms(2) have "slm_inv s" by simp
  then have inv: "slm_inv (set_slm k v s)" by (simp add: set_slm_step)
  have now: "get k (set_slm k v s) = Some v" by (rule get_after_set)
  then have "has k (set_slm k v s)" by (simp add: has_def get_def Map_has_get)
  moreover from untouched_run [OF inv assms(3)] now
  have "has k (run later (set_slm k v s)) \<longrightarrow> get k (run later (set_slm k v s)) = Some v"
    by (auto simp: has_def get_def Map_has_get)
  ultimately show ?thesis using now by simp
qed

theorem set_then_get_witness:
  "get (Val ''c'') (run [Set (Val ''d'') 4, Delete (Val ''a''), Set (Val ''d'') 7]
     (set_slm (Val ''c'') (3::nat)
        (run [Set (Val ''a'') 1, Set (Val ''b'') 2]
           \<lparr>maxSize = Num 2, map_data = [], keysIterator = \<lparr>index = 0, finished = False\<rparr>\<rparr>))) =
   Some 3 \<and>
   \<not> has (Val ''a'') (set_slm (Val ''c'') (3::nat)
        (run [Set (Val ''a'') 1, Set (Val ''b'') 2]
           \<lparr>maxSize = Num 2, map_data = [], keysIterator = \<lparr>index = 0, finished = False\<rparr>\<rparr>))"
  using set_then_get [of "Number (Num 2)" "[]"
      "\<lparr>maxSize = Num 2, map_data = [], keysIterator = \<lparr>index = 0, finished = False\<rparr>\<rparr>"
      "run [Set (Val ''a'') (1::nat), Set (Val ''b'') 2]
        \<lparr>maxSize = Num 2, map_data = [], keysIterator = \<lparr>index = 0, finished = False\<rparr>\<rparr>"
      "[Set (Val ''a'') (1::nat), Set (Val ''b'') 2]"
      "[Set (Val ''d'') 4, Delete (Val ''a''), Set (Val ''d'') 7]" "Val ''c''" 3]
  by (simp add: constructor_def new_Map_def Map_keys_def run_def set_slm_def delete_def
      iterator_next_def has_def get_def)

section \<open>Size limits that are not integers\<close>

text \<open>
  The constructor accepts every finite number from 1 on, integral or not. From an empty
  construction with size limit \<open>q\<close> the size stays below \<open>q + 1\<close>; with the limit 3/2
  it reaches 2.
\<close>

lemma size_step_any_capacity:
  assumes inv: "slm_inv s" and cap: "maxSize s = Num q"
    and bound: "of_nat (length (entries s)) < q + 1"
  shows "of_nat (length (entries (exec cmd s))) < q + 1"
proof (cases cmd)
  case (Set k v)
  from inv cap have q: "1 \<le> q" by (simp add: slm_inv_def)
  consider (overwrite) "entries (set_slm k v s) = queue_update k v (entries s)"
    | (evict) "q \<le> of_nat (length (entries s))" "entries (set_slm k v s) = tl (entries s) @ [(k, v)]"
    | (append) "of_nat (length (entries s)) < q" "entries (set_slm k v s) = entries s @ [(k, v)]"
    using set_slm_step [OF inv, of k v] cap by (auto simp: not_less split: if_splits)
  then show ?thesis
  proof cases
    case overwrite
    with bound Set show ?thesis by (simp add: length_queue_update)
  next
    case evict
    from evict(1) q have "entries s \<noteq> []" by auto
    then have "length (tl (entries s) @ [(k, v)]) = length (entries s)"
      by (cases "entries s") auto
    with bound Set evict(2) show ?thesis by simp
  next
    case append
    with Set show ?thesis by simp
  qed
next
  case (Delete k)
  have "length (filter (\<lambda>e. fst e \<noteq> k) (entries s)) \<le> length (entries s)"
    by (rule length_filter_le)
  then have "(of_nat (length (filter (\<lambda>e. fst e \<noteq> k) (entries s))) :: rat) \<le> of_nat (length (entries s))"
    by (simp only: of_nat_le_iff)
  from this bound have "of_nat (length (filter (\<lambda>e. fst e \<noteq> k) (entries s))) < q + 1"
    by (rule le_less_trans)
  with Delete delete_step [OF inv, of k] show ?thesis by simp
next
  case Clear
  from inv cap have "1 \<le> q" by (simp add: slm_inv_def)
  with Clear clear_step [OF inv] show ?thesis by simp
qed

lemma size_run_any_capacity:
  assumes "slm_inv s" and "maxSize s = Num q" and "of_nat (length (entries s)) < q + 1"
  shows "of_nat (length (entries (run cmds s))) < q + 1"
  using assms
proof (induction cmds arbitrary: s)
  case Nil
  then show ?case by (simp add: run_def)
next
  case (Cons cmd cmds)
  from exec_inv [OF Cons.prems(1)] Cons.prems(2)
  have "slm_inv (exec cmd s)" "maxSize (exec cmd s) = Num q" by simp_all
  from Cons.IH [OF this size_step_any_capacity [OF Cons.prems]] show ?case
    by (simp add: run_def)
qed

theorem size_bound_any_capacity:
  assumes "constructor (Number (Num q)) [] = Inr s0"
  shows "of_nat (size_slm (run cmds s0)) < q + 1"
proof -
  from assms have s0: "maxSize s0 = Num q" "entries s0 = []" "1 \<le> q"
    by (auto simp: constructor_Inr entries_def new_Map_def)
  from constructor_inv [OF assms] have inv: "slm_inv s0" .
  from s0 have "of_nat (length (entries s0)) < q + 1" by simp
  from size_run_any_capacity [OF inv s0(1) this]
  show ?thesis by (simp add: size_slm_def Map_size_entries entries_def)
qed

theorem size_bound_any_capacity_witness:
  "size_slm (run [Set (Val ''a'') (1::nat), Set (Val ''b'') 2, Set (Val ''c'') 3]
     \<lparr>maxSize = Num (3 / 2), map_data = [], keysIterator = \<lparr>index = 0, finished = False\<rparr>\<rparr>) = 2 \<and>
   (of_nat (size_slm (run [Set (Val ''a'') (1::nat), Set (Val ''b'') 2, Set (Val ''c'') 3]
     \<lparr>maxSize = Num (3 / 2), map_data = [], keysIterator = \<lparr>index = 0, finished = False\<rparr>\<rparr>)) :: rat)
     < 3 / 2 + 1"
  using size_bound_any_capacity [of "3 / 2"
      "\<lparr>maxSize = Num (3 / 2), map_data = [], keysIterator = \<lparr>index = 0, finished = False\<rparr>\<rparr>"
      "[Set (Val ''a'') (1::nat), Set (Val ''b'') 2, Set (Val ''c'') 3]"]
  by (simp add: constructor_def new_Map_def Map_keys_def run_def set_slm_def size_slm_def
      iterator_next_def)

end
